theory Spec2Isabelle
  imports Complex_Main "HOL-Library.Sublist" "HOL-Library.AList"
begin

section \<open>Python values used by the dialogue manager\<close>

text \<open>
  A Python \<open>str\<close> is a sequence of Unicode code points; it is modelled as a list of
  natural numbers, so that \<open>length\<close> counts what \<open>len\<close> counts. Identifiers that the
  source writes in ASCII (agent ids, dictionary keys) are HOL strings and are embedded
  with \<open>ascii\<close>.
\<close>

type_synonym ustr = "nat list"

definition ascii :: "string \<Rightarrow> ustr" where
  "ascii s = map of_char s"

datatype py_error = IndexError | KeyError | ValueError | ZeroDivisionError

datatype pyval = PStr ustr | PInt int | PFloat rat

text \<open>A \<open>dict\<close> keeps insertion order: an association list with distinct keys.\<close>

type_synonym entry = "(string \<times> pyval) list"

text \<open>
  \<open>d.update(other)\<close>: every item of \<open>other\<close>, in order, overwrites the value of a key
  that is present (in place) and is appended otherwise.
\<close>

definition dict_update :: "entry \<Rightarrow> entry \<Rightarrow> entry" where
  "dict_update d other = foldl (\<lambda>acc (k, v). AList.update k v acc) d other"

text \<open>
  The slice \<open>xs[i:]\<close>: a negative start counts from the end and is clamped at 0, a
  start beyond the end gives the empty list. Note that \<open>xs[-0:]\<close> is \<open>xs[0:]\<close>.
\<close>

definition slice_from :: "int \<Rightarrow> 'a list \<Rightarrow> 'a list" where
  "slice_from i xs =
     (let n = int (length xs);
          j = (if i < 0 then max 0 (n + i) else min i n)
      in drop (nat j) xs)"

section \<open>Session state of \<open>DialogManager\<close>\<close>

type_synonym agent_id = string

record dialog_manager =
  turn_order :: "agent_id list"
  max_history :: int
  agent_queue :: "agent_id list"
  history :: "entry list"
  total_tokens :: int
  reply_count :: int
  start_time :: ustr

text \<open>\<open>__init__\<close> with an explicit turn order; \<open>now\<close> is \<open>datetime.now()\<close>.\<close>

definition init_dialog :: "agent_id list \<Rightarrow> int \<Rightarrow> ustr \<Rightarrow> dialog_manager" where
  "init_dialog order maxh now =
     \<lparr>turn_order = order, max_history = maxh, agent_queue = order, history = [],
      total_tokens = 0, reply_count = 0, start_time = now\<rparr>"

subsection \<open>Turn queue\<close>

text \<open>
  \<open>get_next_agent\<close> reads \<open>agent_queue[0]\<close> (IndexError on an empty deque) and then
  calls \<open>rotate(-1)\<close>, which moves the leftmost element to the right end. It returns the
  agent and the rotated queue.
\<close>

definition get_next_agent :: "agent_id list \<Rightarrow> py_error + (agent_id \<times> agent_id list)" where
  "get_next_agent q =
     (case q of [] \<Rightarrow> Inl IndexError | a # rest \<Rightarrow> Inr (a, rest @ [a]))"

text \<open>The participant whose turn it is: \<open>agent_queue[0]\<close>.\<close>

definition current_turn :: "agent_id list \<Rightarrow> py_error + agent_id" where
  "current_turn q = (case q of [] \<Rightarrow> Inl IndexError | a # _ \<Rightarrow> Inr a)"

text \<open>\<open>k\<close> consecutive calls of \<open>get_next_agent\<close>, keeping the queue only.\<close>

fun advance :: "nat \<Rightarrow> agent_id list \<Rightarrow> py_error + agent_id list" where
  "advance 0 q = Inr q"
| "advance (Suc k) q =
     (case get_next_agent q of Inl e \<Rightarrow> Inl e | Inr (a, q') \<Rightarrow> advance k q')"

subsection \<open>History buffer\<close>

text \<open>Lines 93-100 of \<open>add_to_history\<close>: the entry, updated with the metadata if any.\<close>

definition make_entry :: "ustr \<Rightarrow> ustr \<Rightarrow> ustr \<Rightarrow> entry option \<Rightarrow> entry" where
  "make_entry role content now metadata =
     (let e = [(''role'', PStr role), (''content'', PStr content), (''timestamp'', PStr now)]
      in case metadata of
           None \<Rightarrow> e
         | Some md \<Rightarrow> if md = [] then e else dict_update e md)"

text \<open>Lines 102-106: append, then keep \<open>history[-max_history:]\<close> if the list is too long.\<close>

definition bound_history :: "int \<Rightarrow> entry list \<Rightarrow> entry list" where
  "bound_history maxh h =
     (if int (length h) > maxh then slice_from (- maxh) h else h)"

definition add_to_history ::
  "dialog_manager \<Rightarrow> ustr \<Rightarrow> ustr \<Rightarrow> ustr \<Rightarrow> entry option \<Rightarrow> dialog_manager" where
  "add_to_history dm role content now metadata =
     dm\<lparr>history := bound_history (max_history dm)
                      (history dm @ [make_entry role content now metadata])\<rparr>"

section \<open>Text primitives of the Python library\<close>

text \<open>
  The character classes are written out for ASCII and for the Cyrillic block
  U+0400..U+045F, which hold every literal of the source; other code points are taken
  as caseless, and as word characters only where listed. \<open>isspace\<close> is the whole
  whitespace class of \<open>str.strip()\<close>.
\<close>

definition isspace :: "nat \<Rightarrow> bool" where
  "isspace c \<longleftrightarrow>
     (9 \<le> c \<and> c \<le> 13) \<or> (28 \<le> c \<and> c \<le> 32) \<or> c = 133 \<or> c = 160 \<or> c = 5760
     \<or> (8192 \<le> c \<and> c \<le> 8202) \<or> c = 8232 \<or> c = 8233 \<or> c = 8239 \<or> c = 8287
     \<or> c = 12288"

text \<open>The class \<open>\w\<close> of the regular expressions: letters, digits and the underscore.\<close>

definition isword :: "nat \<Rightarrow> bool" where
  "isword c \<longleftrightarrow>
     (48 \<le> c \<and> c \<le> 57) \<or> (65 \<le> c \<and> c \<le> 90) \<or> c = 95 \<or> (97 \<le> c \<and> c \<le> 122)
     \<or> (1024 \<le> c \<and> c \<le> 1119)"

definition py_lower :: "nat \<Rightarrow> nat" where
  "py_lower c =
     (if 65 \<le> c \<and> c \<le> 90 then c + 32
      else if 1040 \<le> c \<and> c \<le> 1071 then c + 32
      else if 1024 \<le> c \<and> c \<le> 1039 then c + 80
      else c)"

text \<open>\<open>s.lower()\<close> and \<open>s.strip()\<close>.\<close>

definition str_lower :: "ustr \<Rightarrow> ustr" where
  "str_lower s = map py_lower s"

definition strip :: "ustr \<Rightarrow> ustr" where
  "strip s = rev (dropWhile isspace (rev (dropWhile isspace s)))"

text \<open>\<open>sub in s\<close>: \<open>sub\<close> occurs in \<open>s\<close> as a contiguous substring.\<close>

fun contains :: "'a list \<Rightarrow> 'a list \<Rightarrow> bool" where
  "contains sub [] = (sub = [])"
| "contains sub (c # cs) = (prefix sub (c # cs) \<or> contains sub cs)"

text \<open>
  \<open>s.replace(old, new)\<close>: all occurrences of \<open>old\<close>, found from left to right without
  overlap, are replaced. An empty \<open>old\<close> matches before every character and at the end.
\<close>

fun replace_scan :: "'a list \<Rightarrow> 'a list \<Rightarrow> 'a list \<Rightarrow> 'a list" where
  "replace_scan old new [] = []"
| "replace_scan old new (c # cs) =
     (if prefix old (c # cs)
      then new @ replace_scan old new (drop (length old - 1) cs)
      else c # replace_scan old new cs)"

definition py_replace :: "'a list \<Rightarrow> 'a list \<Rightarrow> 'a list \<Rightarrow> 'a list" where
  "py_replace old new s =
     (if old = [] then new @ concat (map (\<lambda>c. c # new) s) else replace_scan old new s)"

text \<open>
  \<open>s.split()\<close>: the maximal runs of non-whitespace characters; \<open>' '.join(ws)\<close>; and
  \<open>s.split(sep)[-1]\<close> for a one-character separator.
\<close>

function py_split :: "ustr \<Rightarrow> ustr list" where
  "py_split [] = []"
| "py_split (c # cs) =
     (if isspace c then py_split cs
      else (c # takeWhile (\<lambda>x. \<not> isspace x) cs) # py_split (dropWhile (\<lambda>x. \<not> isspace x) cs))"
  by pat_completeness auto
termination
  by (relation "measure length") (auto simp: less_Suc_eq_le length_dropWhile_le)

fun join_space :: "ustr list \<Rightarrow> ustr" where
  "join_space [] = []"
| "join_space [w] = w"
| "join_space (w # ws) = w @ [32] @ join_space ws"

definition after_last :: "nat \<Rightarrow> ustr \<Rightarrow> ustr" where
  "after_last sep s = rev (takeWhile (\<lambda>c. c \<noteq> sep) (rev s))"

subsection \<open>The regular expressions of the sanitizer\<close>

text \<open>
  Every pattern of the source is \<open>\b\<close>, a non-empty literal, \<open>\b\<close>, compiled with
  \<open>re.IGNORECASE\<close>. \<open>boundary prev s\<close> is \<open>\b\<close> at the position whose rest is \<open>s\<close>, where
  \<open>prev\<close> tells whether the character before it is a word character (False at the
  start of the text). A literal matches a character when both have the same
  lower case.
\<close>

definition boundary :: "bool \<Rightarrow> ustr \<Rightarrow> bool" where
  "boundary prev s = (prev \<noteq> (case s of [] \<Rightarrow> False | c # _ \<Rightarrow> isword c))"

definition ci_prefix :: "ustr \<Rightarrow> ustr \<Rightarrow> bool" where
  "ci_prefix pat s \<longleftrightarrow>
     length pat \<le> length s \<and> map py_lower (take (length pat) s) = map py_lower pat"

definition word_match :: "ustr \<Rightarrow> bool \<Rightarrow> ustr \<Rightarrow> bool" where
  "word_match pat prev s \<longleftrightarrow>
     pat \<noteq> [] \<and> boundary prev s \<and> ci_prefix pat s
     \<and> boundary (isword (last (take (length pat) s))) (drop (length pat) s)"

text \<open>
  \<open>re.sub(pattern, repl, text, flags=re.IGNORECASE)\<close>: the text is scanned from the
  left; a match is replaced by \<open>repl\<close> and the scan goes on behind it, any other
  character is copied.
\<close>

fun re_sub_from :: "ustr \<Rightarrow> ustr \<Rightarrow> bool \<Rightarrow> ustr \<Rightarrow> ustr" where
  "re_sub_from pat repl prev [] = []"
| "re_sub_from pat repl prev (c # cs) =
     (if word_match pat prev (c # cs)
      then repl @ re_sub_from pat repl (isword (last (c # take (length pat - 1) cs)))
                    (drop (length pat - 1) cs)
      else c # re_sub_from pat repl (isword c) cs)"

definition re_sub :: "ustr \<Rightarrow> ustr \<Rightarrow> ustr \<Rightarrow> ustr" where
  "re_sub pat repl s = re_sub_from pat repl False s"



section \<open>Reply sanitizer\<close>

definition FORBIDDEN_WORDS :: "ustr list" where
  "FORBIDDEN_WORDS =
     [[1076, 1088, 1091, 1078, 1080, 1097, 1077],
      [1073, 1088, 1072, 1090],
      [1087, 1072, 1088, 1077, 1085, 1100],
      [1095, 1091, 1074, 1072, 1082],
      [1084, 1091, 1078, 1080, 1082]]"

text \<open>The neutral term of address that replaces a forbidden word.\<close>

definition colleague :: ustr where
  "colleague = [1082, 1086, 1083, 1083, 1077, 1075, 1072]"

definition ellipsis :: ustr where
  "ellipsis = [46, 46, 46]"

text \<open>The fillers for an empty reply (lines 189 and 191).\<close>

definition filler_agent_1 :: ustr where
  "filler_agent_1 =
     [91, 1056, 1040, 1044, 1054, 1057, 1058, 1068, 93, 32, 1048, 1085, 1090, 1077, 1088,
      1077, 1089, 1085, 1072, 1103, 32, 1084, 1099, 1089, 1083, 1100, 33, 32, 1055, 1088,
      1086, 1076, 1086, 1083, 1078, 1080, 1084, 32, 1086, 1073, 1089, 1091, 1078, 1076,
      1077, 1085, 1080, 1077, 63]"

definition filler_other :: ustr where
  "filler_other =
     [91, 1051, 1070, 1041, 1054, 1055, 1067, 1058, 1057, 1058, 1042, 1054, 93, 32, 1054,
      1081, 44, 32, 1072, 32, 1088, 1072, 1089, 1089, 1082, 1072, 1078, 1080, 32, 1087,
      1086, 1076, 1088, 1086, 1073, 1085, 1077, 1077, 33]"

text \<open>The masculine forms and their feminine replacements, in the order of the source.\<close>

definition replacements :: "(ustr \<times> ustr) list" where
  "replacements =
     [([1103, 32, 1091, 1074, 1077, 1088, 1077, 1085],
       [1103, 32, 1091, 1074, 1077, 1088, 1077, 1085, 1072]),
      ([1103, 32, 1073, 1099, 1083], [1103, 32, 1073, 1099, 1083, 1072]),
      ([1103, 32, 1087, 1086, 1076, 1091, 1084, 1072, 1083],
       [1103, 32, 1087, 1086, 1076, 1091, 1084, 1072, 1083, 1072]),
      ([1103, 32, 1089, 1082, 1072, 1079, 1072, 1083],
       [1103, 32, 1089, 1082, 1072, 1079, 1072, 1083, 1072]),
      ([1103, 32, 1088, 1072, 1076], [1103, 32, 1088, 1072, 1076, 1072]),
      ([1089, 1086, 1075, 1083, 1072, 1089, 1077, 1085],
       [1089, 1086, 1075, 1083, 1072, 1089, 1085, 1072]),
      ([1093, 1086, 1090, 1077, 1083, 32, 1073, 1099],
       [1093, 1086, 1090, 1077, 1083, 1072, 32, 1073, 1099]),
      ([1075, 1086, 1090, 1086, 1074], [1075, 1086, 1090, 1086, 1074, 1072]),
      ([1091, 1074, 1077, 1088, 1077, 1085], [1091, 1074, 1077, 1088, 1077, 1085, 1072]),
      ([1073, 1099, 1083], [1073, 1099, 1083, 1072]),
      ([1087, 1086, 1076, 1091, 1084, 1072, 1083],
       [1087, 1086, 1076, 1091, 1084, 1072, 1083, 1072]),
      ([1089, 1082, 1072, 1079, 1072, 1083], [1089, 1082, 1072, 1079, 1072, 1083, 1072]),
      ([1088, 1072, 1076], [1088, 1072, 1076, 1072])]"

text \<open>Step 2 of \<open>_validate_and_fix_reply\<close>: \<open>text[:997] + "..."\<close> for a long text.\<close>

definition truncate_reply :: "ustr \<Rightarrow> ustr" where
  "truncate_reply text = (if length text > 1000 then take 997 text @ ellipsis else text)"

text \<open>Step 3: the loop over the replacements, for \<open>agent_2\<close> only.\<close>

fun apply_replacements :: "(ustr \<times> ustr) list \<Rightarrow> ustr \<Rightarrow> ustr" where
  "apply_replacements [] fixed_text = fixed_text"
| "apply_replacements ((wrong, correct) # rest) fixed_text =
     apply_replacements rest (re_sub wrong correct fixed_text)"

definition fix_gender :: "agent_id \<Rightarrow> ustr \<Rightarrow> ustr" where
  "fix_gender agent_id text =
     (if agent_id = ''agent_2'' then apply_replacements replacements text else text)"

text \<open>Step 4: the loop over the forbidden words, for every agent.\<close>

fun replace_forbidden :: "ustr list \<Rightarrow> ustr \<Rightarrow> ustr" where
  "replace_forbidden [] fixed_text = fixed_text"
| "replace_forbidden (word # rest) fixed_text =
     replace_forbidden rest
       (if contains word (str_lower fixed_text) then re_sub word colleague fixed_text
        else fixed_text)"

definition validate_and_fix_reply :: "ustr \<Rightarrow> agent_id \<Rightarrow> ustr" where
  "validate_and_fix_reply text agent_id =
     (if text = [] \<or> length (strip text) < 5
      then (if agent_id = ''agent_1'' then filler_agent_1 else filler_other)
      else replace_forbidden FORBIDDEN_WORDS (fix_gender agent_id (truncate_reply text)))"

subsection \<open>The sanitizer's last step, word by word\<close>


function map_words :: "(ustr \<Rightarrow> ustr) \<Rightarrow> ustr \<Rightarrow> ustr" where
  "map_words f [] = []"
| "map_words f (c # cs) =
     (if isword c then f (c # takeWhile isword cs) @ map_words f (dropWhile isword cs)
      else c # map_words f cs)"
  by pat_completeness auto
termination
  by (relation "measure (\<lambda>(f, s). length s)") (auto simp: less_Suc_eq_le length_dropWhile_le)

definition censor_word :: "ustr \<Rightarrow> ustr" where
  "censor_word w = (if str_lower w \<in> set FORBIDDEN_WORDS then colleague else w)"

text \<open>
  A non-empty literal made of word characters only, and the rewriting of one word by
  one pattern.
\<close>

definition word_pattern :: "ustr \<Rightarrow> bool" where
  "word_pattern p \<longleftrightarrow> p \<noteq> [] \<and> (\<forall>c \<in> set p. isword c)"

definition subst_word :: "ustr \<Rightarrow> ustr \<Rightarrow> ustr \<Rightarrow> ustr" where
  "subst_word p r w = (if str_lower w = str_lower p then r else w)"



section \<open>Emotion tag extractor\<close>

definition default_emotion :: ustr where
  "default_emotion = [91, 1053, 1045, 1049, 1058, 1056, 1040, 1051, 1068, 1053, 1054, 93]"

text \<open>
  \<open>_extract_emotion\<close> over the tags of the agent's emotions, in the order of the
  configuration: the first tag that occurs in the text is returned, with the text from
  which \<open>replace(tag, "")\<close> has removed it.
\<close>

fun extract_emotion :: "ustr \<Rightarrow> ustr list \<Rightarrow> ustr \<times> ustr" where
  "extract_emotion text [] = (default_emotion, strip text)"
| "extract_emotion text (tag # rest) =
     (if contains tag text then (tag, strip (py_replace tag [] text))
      else extract_emotion text rest)"

section \<open>Participants and the generation backend\<close>

text \<open>
  The configuration of one agent, as \<open>PromptBuilder.get_agent_config\<close> returns it: the
  name, the tags of its emotions in the order of the file, the temperature and the
  token budget (the defaults of \<open>get_temperature\<close> and \<open>get_max_tokens\<close> are filled in
  when the file is loaded). An agent that is not configured raises ValueError. An
  agent without a name, or an emotion without a tag, is an error of the configuration
  file (KeyError) and has no counterpart in this record.
\<close>

record agent_config =
  ac_name :: ustr
  ac_emotions :: "ustr list"
  ac_temperature :: rat
  ac_max_tokens :: int

type_synonym config = "(agent_id \<times> agent_config) list"

definition get_agent_config :: "config \<Rightarrow> agent_id \<Rightarrow> py_error + agent_config" where
  "get_agent_config cfg agent_id =
     (case map_of cfg agent_id of None \<Rightarrow> Inl ValueError | Some agent \<Rightarrow> Inr agent)"

text \<open>
  What the outside world does during one call of \<open>get_next_reply\<close>: whether the
  prompt could be built, whether \<open>_ensure_token\<close> returned, and what the
  \<open>attempt\<close>-th \<open>requests.post\<close> of \<open>generate_response\<close> gave. \<open>HttpError unauthorized
  refreshed\<close> is an exception of the request or of reading its answer; \<open>unauthorized\<close>
  says that its message contains "401", and \<open>refreshed\<close> that the new access token
  was obtained. \<open>HttpOk answer tokens\<close> is a well-formed answer.
\<close>

datatype http_result = HttpError bool bool | HttpOk ustr int

record backend =
  prompt_ok :: bool
  token_ok :: bool
  post_result :: "nat \<Rightarrow> http_result"

text \<open>The call either raises or returns a text and a token count.\<close>

datatype outcome = Raised | Returned ustr int

text \<open>The text that \<open>generate_response\<close> returns when it gives up (lines 185 and 223).\<close>

definition sentinel :: ustr where
  "sentinel =
     [1048, 1079, 1074, 1080, 1085, 1080, 1090, 1077, 44, 32, 1085, 1077, 32, 1091, 1076,
      1072, 1083, 1086, 1089, 1100, 32, 1087, 1086, 1083, 1091, 1095, 1080, 1090, 1100, 32,
      1086, 1090, 1074, 1077, 1090, 32, 1086, 1090, 32, 71, 105, 103, 97, 67, 104, 97, 116,
      46]"

text \<open>
  \<open>_estimate_audio_duration\<close>: three words a second, at least two seconds, rounded to one
  decimal. The quotient of a word count by 3 is never half-way between two decimals,
  so the rounding mode does not matter.
\<close>

definition estimate_audio_duration :: "ustr \<Rightarrow> rat" where
  "estimate_audio_duration text =
     (let clean_text = strip text;
          clean_text = (if 93 \<in> set clean_text then strip (after_last 93 clean_text)
                        else clean_text);
          words = length (py_split clean_text);
          duration = (max 2 (of_nat words / 3) :: rat)
      in of_int (round (duration * 10)) / 10)"

text \<open>
  Lines 194-201 with the default \<open>target_duration = 30.0\<close>, which \<open>get_next_reply\<close> never
  overrides: an answer estimated above 45 seconds is cut to 90 words.
\<close>

definition shorten_answer :: "ustr \<Rightarrow> ustr" where
  "shorten_answer answer =
     (if estimate_audio_duration answer > 45
      then (let words = py_split answer
            in if length words > 90 then join_space (take 90 words) @ ellipsis else answer)
      else answer)"

text \<open>
  The loop \<open>for attempt in range(retry_count)\<close> of \<open>generate_response\<close>, with \<open>k\<close> attempts
  still to make. An exception raised by the token refresh inside the handler leaves
  the function.
\<close>

fun retry_loop :: "(nat \<Rightarrow> http_result) \<Rightarrow> nat \<Rightarrow> nat \<Rightarrow> outcome" where
  "retry_loop results retry_count 0 = Returned sentinel 0"
| "retry_loop results retry_count (Suc k) =
     (let attempt = retry_count - Suc k
      in case results attempt of
           HttpOk answer tokens \<Rightarrow>
             if answer = [] \<or> length (strip answer) < 10
             then (if attempt + 1 < retry_count then retry_loop results retry_count k
                   else Returned sentinel 0)
             else Returned (shorten_answer (strip answer)) tokens
         | HttpError unauthorized refreshed \<Rightarrow>
             if unauthorized \<and> \<not> refreshed then Raised
             else retry_loop results retry_count k)"

definition generate_response :: "backend \<Rightarrow> nat \<Rightarrow> outcome" where
  "generate_response b retry_count =
     (if \<not> token_ok b then Raised
      else retry_loop (post_result b) retry_count retry_count)"

text \<open>
  The body of the \<open>try\<close> of \<open>get_next_reply\<close> (lines 275-303): build the prompt, then call
  \<open>generate_response\<close> with its default of 3 attempts. Both branches of the source make
  the same call; they differ in the prompt, which only the backend sees.
\<close>

definition request_reply :: "backend \<Rightarrow> outcome" where
  "request_reply b = (if \<not> prompt_ok b then Raised else generate_response b 3)"

text \<open>The fallback utterances of the \<open>except\<close> branch (lines 308 and 310).\<close>

definition fallback_agent_1 :: ustr where
  "fallback_agent_1 =
     [91, 1056, 1040, 1044, 1054, 1057, 1058, 1068, 93, 32, 1063, 1090, 1086, 45, 1090, 1086,
      32, 1103, 32, 1079, 1072, 1076, 1091, 1084, 1072, 1083, 1089, 1103, 46, 32, 1055, 1088,
      1086, 1076, 1086, 1083, 1078, 1080, 1084, 63]"

definition fallback_other :: ustr where
  "fallback_other =
     [91, 1051, 1070, 1041, 1054, 1055, 1067, 1058, 1057, 1058, 1042, 1054, 93, 32, 1054,
      1081, 44, 32, 1072, 32, 1076, 1072, 1074, 1072, 1081, 32, 1074, 1077, 1088, 1085, 1105,
      1084, 1089, 1103, 32, 1082, 32, 1090, 1077, 1084, 1077, 33]"

text \<open>Lines 275-311: the reply of the backend, or the fallback with 10 tokens if it raised.\<close>

definition reply_or_fallback :: "agent_id \<Rightarrow> outcome \<Rightarrow> ustr \<times> int" where
  "reply_or_fallback agent_id out =
     (case out of
        Returned response_text tokens \<Rightarrow> (response_text, tokens)
      | Raised \<Rightarrow>
          (if agent_id = ''agent_1'' then fallback_agent_1 else fallback_other, 10))"

section \<open>Dialogue orchestrator\<close>

text \<open>
  \<open>get_next_reply\<close> returns the agent, the full text, the text without its tag and the
  token count, together with the new session state. \<open>get_next_agent\<close> and
  \<open>get_agent_config\<close> are called outside the \<open>try\<close>: their exceptions leave the function.
  The recent history of line 269 and the topic go into the prompt only; what the
  backend does with the prompt is given by \<open>b\<close>.
\<close>

type_synonym reply = "agent_id \<times> ustr \<times> ustr \<times> int"

text \<open>The components of a reply.\<close>

definition reply_agent :: "reply \<Rightarrow> agent_id" where
  "reply_agent r = fst r"

definition reply_text :: "reply \<Rightarrow> ustr" where
  "reply_text r = fst (snd r)"

definition reply_tokens :: "reply \<Rightarrow> int" where
  "reply_tokens r = snd (snd (snd r))"

definition get_next_reply ::
  "config \<Rightarrow> dialog_manager \<Rightarrow> backend \<Rightarrow> ustr \<Rightarrow> py_error + (reply \<times> dialog_manager)" where
  "get_next_reply cfg dm b now =
     (case get_next_agent (agent_queue dm) of
        Inl e \<Rightarrow> Inl e
      | Inr (agent_id, queue) \<Rightarrow>
          (case get_agent_config cfg agent_id of
             Inl e \<Rightarrow> Inl e
           | Inr agent_config \<Rightarrow>
               let (response_text, tokens) = reply_or_fallback agent_id (request_reply b);
                   response_text = validate_and_fix_reply response_text agent_id;
                   dm = dm\<lparr>agent_queue := queue,
                           reply_count := reply_count dm + 1,
                           total_tokens := total_tokens dm + tokens\<rparr>;
                   (emotion_tag, clean_text) =
                     extract_emotion response_text (ac_emotions agent_config);
                   metadata =
                     [(''agent_id'', PStr (ascii agent_id)),
                      (''agent_name'', PStr (ac_name agent_config)),
                      (''emotion'', PStr emotion_tag),
                      (''tokens'', PInt tokens),
                      (''temperature'', PFloat (ac_temperature agent_config))];
                   dm = add_to_history dm (ascii ''assistant'') response_text now (Some metadata)
               in Inr ((agent_id, response_text, clean_text, tokens), dm)))"

text \<open>
  A session: one call of \<open>get_next_reply\<close> for every element of \<open>turns\<close>, which gives the
  behaviour of the backend during the call and the time of the call. The first
  exception ends the session.
\<close>

fun run_turns ::
  "config \<Rightarrow> dialog_manager \<Rightarrow> (backend \<times> ustr) list \<Rightarrow> py_error + (reply list \<times> dialog_manager)" where
  "run_turns cfg dm [] = Inr ([], dm)"
| "run_turns cfg dm ((b, now) # rest) =
     (case get_next_reply cfg dm b now of
        Inl e \<Rightarrow> Inl e
      | Inr (r, dm') \<Rightarrow>
          (case run_turns cfg dm' rest of
             Inl e \<Rightarrow> Inl e
           | Inr (rs, dm'') \<Rightarrow> Inr (r # rs, dm'')))"

text \<open>
  A backend call fails when the prompt cannot be built, the access token cannot be
  obtained, or each of the 3 attempts raises or gives an answer that \<open>generate_response\<close>
  rejects as empty.
\<close>

definition attempt_fails :: "http_result \<Rightarrow> bool" where
  "attempt_fails res =
     (case res of
        HttpError unauthorized refreshed \<Rightarrow> True
      | HttpOk answer tokens \<Rightarrow> answer = [] \<or> length (strip answer) < 10)"

definition backend_fails :: "backend \<Rightarrow> bool" where
  "backend_fails b \<longleftrightarrow>
     \<not> prompt_ok b \<or> \<not> token_ok b \<or> list_all (\<lambda>i. attempt_fails (post_result b i)) [0..<3]"

text \<open>
  \<open>save_dialog_log\<close>: the dictionary handed to \<open>json.dump\<close>, or nothing when opening or
  writing the file raises (the exception is logged, not raised).
\<close>

record dialog_data =
  dd_start_time :: ustr
  dd_end_time :: ustr
  dd_total_replies :: int
  dd_total_tokens :: int
  dd_turn_order :: "agent_id list"
  dd_history :: "entry list"

definition save_dialog_log :: "dialog_manager \<Rightarrow> ustr \<Rightarrow> bool \<Rightarrow> dialog_data option" where
  "save_dialog_log dm now write_ok =
     (let dialog_data =
            \<lparr>dd_start_time = start_time dm, dd_end_time = now,
             dd_total_replies = reply_count dm, dd_total_tokens = total_tokens dm,
             dd_turn_order = turn_order dm, dd_history = history dm\<rparr>
      in if write_ok then Some dialog_data else None)"

text \<open>
  \<open>get_statistics\<close>. The true division \<open>/\<close> raises ZeroDivisionError for a zero divisor;
  its float result is modelled by the exact quotient. \<open>elapsed\<close> is the number of
  seconds since the start of the session.
\<close>

definition py_truediv :: "int \<Rightarrow> int \<Rightarrow> py_error + rat" where
  "py_truediv a b = (if b = 0 then Inl ZeroDivisionError else Inr (of_int a / of_int b))"

record statistics =
  st_total_replies :: int
  st_total_tokens :: int
  st_average_tokens_per_reply :: rat
  st_history_length :: nat
  st_current_turn :: agent_id
  st_duration_seconds :: int

definition get_statistics :: "dialog_manager \<Rightarrow> int \<Rightarrow> py_error + statistics" where
  "get_statistics dm elapsed =
     (case (if reply_count dm > 0 then py_truediv (total_tokens dm) (reply_count dm)
            else Inr 0) of
        Inl e \<Rightarrow> Inl e
      | Inr average \<Rightarrow>
          (case current_turn (agent_queue dm) of
             Inl e \<Rightarrow> Inl e
           | Inr agent_id \<Rightarrow>
               Inr \<lparr>st_total_replies = reply_count dm,
                    st_total_tokens = total_tokens dm,
                    st_average_tokens_per_reply = average,
                    st_history_length = length (history dm),
                    st_current_turn = agent_id,
                    st_duration_seconds = elapsed\<rparr>))"


section \<open>A configuration and two backends for examples\<close>

text \<open>
  Two agents in the default turn order, with a history of at most 10 entries; a backend
  whose every request times out, and one for which the prompt cannot be built.
\<close>

definition example_config :: config where
  "example_config =
     [(''agent_1'', \<lparr>ac_name = [65], ac_emotions = [[91, 1056, 1040, 1044, 1054, 1057, 1058, 1068, 93]],
                     ac_temperature = 7 / 10, ac_max_tokens = 350\<rparr>),
      (''agent_2'', \<lparr>ac_name = [66],
                     ac_emotions = [[91, 1051, 1070, 1041, 1054, 1055, 1067, 1058, 1057, 1058,
                                     1042, 1054, 93]],
                     ac_temperature = 9 / 10, ac_max_tokens = 350\<rparr>)]"

definition example_session :: dialog_manager where
  "example_session = init_dialog [''agent_1'', ''agent_2''] 10 []"

definition timeout_backend :: backend where
  "timeout_backend =
     \<lparr>prompt_ok = True, token_ok = True, post_result = (\<lambda>attempt. HttpError False False)\<rparr>"

definition broken_backend :: backend where
  "broken_backend =
     \<lparr>prompt_ok = False, token_ok = True, post_result = (\<lambda>attempt. HttpError False False)\<rparr>"

section \<open>Turn queue: strict rotation\<close>

lemma advance_rotate: "q \<noteq> [] \<Longrightarrow> advance k q = Inr (rotate k q)"
proof (induction k arbitrary: q)
  case 0
  then show ?case by simp
next
  case (Suc k)
  then obtain a rest where q: "q = a # rest" by (cases q) auto
  have "advance (Suc k) q = advance k (rest @ [a])"
    by (simp add: q get_next_agent_def)
  also have "\<dots> = Inr (rotate k (rest @ [a]))"
    by (rule Suc.IH) simp
  also have "rotate k (rest @ [a]) = rotate (Suc k) q"
    by (simp add: q rotate1_rotate_swap)
  finally show ?case .
qed

text \<open>
  C8. For a turn order \<open>q\<close> of length \<open>n \<ge> 1\<close>, one call of \<open>get_next_agent\<close> returns the
  first participant and leaves the queue rotated by one, so that the participant that
  was second (index \<open>1 mod n\<close>) is current; after \<open>n\<close> consecutive calls the queue is the
  configured order again and its first participant is current.
\<close>

theorem turn_queue_strict_rotation:
  assumes "q \<noteq> []"
  shows "get_next_agent q = Inr (hd q, tl q @ [hd q])
       \<and> current_turn (tl q @ [hd q]) = Inr (q ! (1 mod length q))
       \<and> advance (length q) q = Inr q
       \<and> (case advance (length q) q of Inl e \<Rightarrow> Inl e | Inr q' \<Rightarrow> current_turn q') = Inr (hd q)"
proof -
  from assms obtain a rest where q: "q = a # rest" by (cases q) auto
  have step: "get_next_agent q = Inr (hd q, tl q @ [hd q])"
    by (simp add: q get_next_agent_def)
  have second: "current_turn (tl q @ [hd q]) = Inr (q ! (1 mod length q))"
  proof (cases rest)
    case Nil
    then show ?thesis by (simp add: q current_turn_def)
  next
    case (Cons b rest')
    then show ?thesis by (simp add: q current_turn_def)
  qed
  have cycle: "advance (length q) q = Inr q"
    using advance_rotate [OF assms, of "length q"] by simp
  have cur: "current_turn q = Inr (hd q)"
    by (simp add: q current_turn_def)
  show ?thesis using step second cycle cur by simp
qed

theorem turn_queue_strict_rotation_witness:
  "[''a'', ''b''] \<noteq> []
   \<and> get_next_agent [''a'', ''b''] = Inr (''a'', [''b'', ''a''])
   \<and> current_turn [''b'', ''a''] = Inr ''b''
   \<and> advance 2 [''a'', ''b''] = Inr [''a'', ''b'']
   \<and> (case advance 2 [''a'', ''b''] of Inl e \<Rightarrow> Inl e | Inr q' \<Rightarrow> current_turn q') = Inr ''a''"
  using turn_queue_strict_rotation [of "[''a'', ''b'']"]
  by (simp add: get_next_agent_def current_turn_def numeral_2_eq_2)

section \<open>History buffer\<close>

lemma slice_from_neg: "0 < m \<Longrightarrow> slice_from (- m) xs = drop (length xs - nat m) xs"
  by (simp add: slice_from_def Let_def nat_diff_distrib' max_def)

lemma bound_history_pos:
  assumes "0 < m"
  shows "bound_history m h = drop (length h - nat m) h"
proof (cases "int (length h) > m")
  case True
  then show ?thesis using assms by (simp add: bound_history_def slice_from_neg)
next
  case False
  then have "length h - nat m = 0" by simp
  with False show ?thesis by (simp add: bound_history_def)
qed

text \<open>
  Where the bound works: for a positive \<open>max_history\<close> the buffer after an append is the
  old buffer plus the new entry with just enough of the oldest entries dropped, and it
  is never longer than \<open>max_history\<close>.
\<close>

lemma add_to_history_positive_bound:
  assumes "0 < max_history dm"
  shows "history (add_to_history dm role content now md)
           = drop (Suc (length (history dm)) - nat (max_history dm))
               (history dm @ [make_entry role content now md])"
    and "int (length (history (add_to_history dm role content now md))) \<le> max_history dm"
  using assms by (simp_all add: add_to_history_def bound_history_pos)

text \<open>
  C3. The claim covers every configured \<open>max_history\<close>. With \<open>max_history = 0\<close> the
  test \<open>len(history) > 0\<close> succeeds after the first append, but the slice
  \<open>history[-0:]\<close> is the whole list: the buffer then holds one entry, more than its
  maximum, and nothing is ever dropped.
\<close>

theorem add_to_history_zero_max_keeps_entry:
  "history (add_to_history (init_dialog order 0 t0) role content now None)
     = [make_entry role content now None]
   \<and> int (length (history (add_to_history (init_dialog order 0 t0) role content now None)))
       > max_history (init_dialog order 0 t0)"
  by (simp add: add_to_history_def init_dialog_def bound_history_def slice_from_def)

section \<open>Metadata may overwrite the fields of a history entry\<close>

lemma map_of_dict_update:
  "map_of (dict_update e md) k =
     (case map_of (rev md) k of Some v \<Rightarrow> Some v | None \<Rightarrow> map_of e k)"
  unfolding dict_update_def
proof (induction md arbitrary: e)
  case Nil
  then show ?case by simp
next
  case (Cons kv md)
  obtain k' v' where kv: "kv = (k', v')" by (cases kv)
  show ?case
    by (simp add: kv Cons.IH update_conv' map_add_def split: option.splits)
qed

lemma map_of_rev_distinct:
  "distinct (map fst md) \<Longrightarrow> map_of (rev md) = map_of md"
  by (rule ext) (metis distinct_rev map_of_inject_set rev_map set_rev)

lemma map_of_make_entry:
  "map_of (make_entry role content now (Some md)) k =
     (case map_of (rev md) k of
        Some v \<Rightarrow> Some v
      | None \<Rightarrow> map_of [(''role'', PStr role), (''content'', PStr content),
                         (''timestamp'', PStr now)] k)"
proof (cases md)
  case Nil
  then show ?thesis by (simp add: make_entry_def)
next
  case (Cons kv md')
  then show ?thesis
    by (simp add: make_entry_def map_of_dict_update del: map_of.simps)
qed

text \<open>
  C10. The entry that \<open>add_to_history\<close> builds from a metadata dictionary \<open>md\<close> (distinct
  keys) holds the \<open>role\<close> and \<open>content\<close> arguments when \<open>md\<close> has none of the keys "role",
  "content", "timestamp"; every key that \<open>md\<close> does hold has the metadata's value in the
  entry, so a key "content" in the metadata replaces the stored text. For a
  non-negative \<open>max_history\<close> that entry is the last one of the stored history.
\<close>

theorem add_to_history_metadata_overwrites:
  assumes "distinct (map fst md)"
  shows "(''role'' \<notin> fst ` set md \<and> ''content'' \<notin> fst ` set md \<and> ''timestamp'' \<notin> fst ` set md
            \<longrightarrow> map_of (make_entry role content now (Some md)) ''role'' = Some (PStr role)
              \<and> map_of (make_entry role content now (Some md)) ''content'' = Some (PStr content))
       \<and> (\<forall>k v. map_of md k = Some v
            \<longrightarrow> map_of (make_entry role content now (Some md)) k = Some v)
       \<and> (0 \<le> max_history dm
            \<longrightarrow> history (add_to_history dm role content now (Some md)) \<noteq> []
              \<and> last (history (add_to_history dm role content now (Some md)))
                  = make_entry role content now (Some md))"
proof -
  have rv: "map_of (rev md) = map_of md"
    using assms by (rule map_of_rev_distinct)
  have none: "map_of md k = None" if "k \<notin> fst ` set md" for k
    using that by (simp add: map_of_eq_None_iff)
  have a: "map_of (make_entry role content now (Some md)) ''role'' = Some (PStr role)
         \<and> map_of (make_entry role content now (Some md)) ''content'' = Some (PStr content)"
    if "''role'' \<notin> fst ` set md" "''content'' \<notin> fst ` set md"
    using that by (simp add: map_of_make_entry rv none)
  have b: "map_of (make_entry role content now (Some md)) k = Some v"
    if "map_of md k = Some v" for k v
    using that by (simp add: map_of_make_entry rv del: map_of.simps)
  have c: "history (add_to_history dm role content now (Some md)) \<noteq> []
         \<and> last (history (add_to_history dm role content now (Some md)))
             = make_entry role content now (Some md)"
    if "0 \<le> max_history dm"
  proof (cases "max_history dm = 0")
    case True
    then show ?thesis
      by (simp add: add_to_history_def bound_history_def slice_from_def)
  next
    case False
    with that have pos: "0 < max_history dm" by simp
    then have "Suc (length (history dm)) - nat (max_history dm) < Suc (length (history dm))"
      by arith
    then show ?thesis
      by (simp add: add_to_history_positive_bound [OF pos])
  qed
  show ?thesis using a b c by blast
qed

theorem add_to_history_metadata_overwrites_witness:
  "distinct (map fst [(''content'', PStr [120]), (''tokens'', PInt 7)])
   \<and> map_of (make_entry [117] [99] [48] (Some [(''content'', PStr [120]), (''tokens'', PInt 7)]))
        ''content'' = Some (PStr [120])
   \<and> distinct (map fst [(''tokens'', PInt 7)])
   \<and> map_of (make_entry [117] [99] [48] (Some [(''tokens'', PInt 7)])) ''content''
        = Some (PStr [99])"
  using add_to_history_metadata_overwrites
          [of "[(''content'', PStr [120]), (''tokens'', PInt 7)]" "[117]" "[99]" "[48]"]
        add_to_history_metadata_overwrites
          [of "[(''tokens'', PInt 7)]" "[117]" "[99]" "[48]"]
  by simp

section \<open>The regular expressions, word by word\<close>

lemma isword_py_lower [simp]: "isword (py_lower c) = isword c"
  by (auto simp: isword_def py_lower_def)

lemma all_word_lower_eq:
  assumes "map py_lower xs = map py_lower p" "\<forall>c \<in> set p. isword c"
  shows "\<forall>c \<in> set xs. isword c"
proof
  fix c assume "c \<in> set xs"
  then have "py_lower c \<in> set (map py_lower p)"
    using assms(1) by (metis image_eqI set_map)
  then obtain q where "q \<in> set p" "py_lower c = py_lower q" by auto
  then have "isword (py_lower c)" using assms(2) by simp
  then show "isword c" by simp
qed

lemma word_match_nonword:
  assumes "word_pattern p" "\<not> isword c"
  shows "\<not> word_match p prev (c # cs)"
proof
  assume m: "word_match p prev (c # cs)"
  from assms(1) obtain q qs where p: "p = q # qs" and q: "isword q"
    by (cases p) (auto simp: word_pattern_def)
  from m have "py_lower c = py_lower q"
    by (simp add: word_match_def ci_prefix_def p)
  then have "isword c" using q by (metis isword_py_lower)
  with assms(2) show False by simp
qed

lemma word_match_inside:
  assumes "isword c"
  shows "\<not> word_match p True (c # cs)"
  using assms by (simp add: word_match_def boundary_def)

lemma word_match_at_start:
  assumes wp: "word_pattern p" and c: "isword c"
  shows "word_match p False (c # cs) \<longleftrightarrow> map py_lower (c # takeWhile isword cs) = map py_lower p"
proof
  let ?s = "c # cs" and ?n = "length p"
  assume m: "word_match p False ?s"
  then have len: "?n \<le> length ?s" and eq: "map py_lower (take ?n ?s) = map py_lower p"
    and bd: "boundary (isword (last (take ?n ?s))) (drop ?n ?s)"
    by (auto simp: word_match_def ci_prefix_def)
  from wp have pne: "p \<noteq> []" and pw: "\<forall>c \<in> set p. isword c" by (auto simp: word_pattern_def)
  have allw: "\<forall>x \<in> set (take ?n ?s). isword x"
    using all_word_lower_eq [OF eq pw] .
  have tne: "take ?n ?s \<noteq> []" using pne by simp
  then have "isword (last (take ?n ?s))" using allw last_in_set by blast
  with bd have stop: "takeWhile isword (drop ?n ?s) = []"
    by (cases "drop ?n ?s") (auto simp: boundary_def)
  have "takeWhile isword ?s = takeWhile isword (take ?n ?s @ drop ?n ?s)" by simp
  also have "\<dots> = take ?n ?s @ takeWhile isword (drop ?n ?s)"
    using allw by (intro takeWhile_append2) auto
  finally have "takeWhile isword ?s = take ?n ?s" using stop by simp
  then show "map py_lower (c # takeWhile isword cs) = map py_lower p"
    using eq c by simp
next
  let ?s = "c # cs" and ?n = "length p"
  define w where "w = takeWhile isword ?s"
  define r where "r = dropWhile isword ?s"
  assume eq: "map py_lower (c # takeWhile isword cs) = map py_lower p"
  from wp have pne: "p \<noteq> []" by (auto simp: word_pattern_def)
  have s: "?s = w @ r" by (simp add: w_def r_def)
  have wc: "w = c # takeWhile isword cs" using c by (simp add: w_def)
  have eqw: "map py_lower w = map py_lower p" using eq wc by simp
  have len: "length w = ?n" using eqw by (metis length_map)
  have tk: "take ?n ?s = w" and dr: "drop ?n ?s = r"
    unfolding s using len by simp_all
  have lastw: "isword (last w)"
  proof -
    have "last w \<in> set w" using wc by (intro last_in_set) simp
    then show ?thesis unfolding w_def by (rule set_takeWhileD [THEN conjunct2])
  qed
  have bd: "boundary True r"
  proof (cases r)
    case Nil
    then show ?thesis by (simp add: boundary_def)
  next
    case (Cons x xs)
    then have "r \<noteq> []" by simp
    then have "\<not> isword (hd r)" unfolding r_def by (rule hd_dropWhile)
    then show ?thesis using Cons by (simp add: boundary_def)
  qed
  have "boundary False ?s" using c by (simp add: boundary_def)
  moreover have "ci_prefix p ?s"
    unfolding ci_prefix_def tk using eqw len s by (metis le_add1 length_append)
  moreover have "boundary (isword (last (take ?n ?s))) (drop ?n ?s)"
    unfolding tk dr using lastw bd by simp
  ultimately show "word_match p False ?s"
    using pne by (simp only: word_match_def simp_thms)
qed


lemma takeWhile_after_dropWhile [simp]: "takeWhile P (dropWhile P xs) = []"
  by (induction xs) auto

lemma drop_word_rest:
  "map py_lower (c # takeWhile isword cs) = map py_lower p
     \<Longrightarrow> drop (length p - 1) cs = dropWhile isword cs"
proof -
  assume "map py_lower (c # takeWhile isword cs) = map py_lower p"
  then have "length (c # takeWhile isword cs) = length p" by (metis length_map)
  then have "length p - 1 = length (takeWhile isword cs)" by simp
  then show ?thesis by (simp add: dropWhile_eq_drop)
qed

lemma re_sub_from_words:
  "word_pattern p \<Longrightarrow>
   re_sub_from p r prev s =
     (if prev then takeWhile isword s @ map_words (subst_word p r) (dropWhile isword s)
      else map_words (subst_word p r) s)"
proof (induction p r prev s rule: re_sub_from.induct)
  case (1 pat repl prev)
  then show ?case by simp
next
  case (2 pat repl prev c cs)
  note wp = "2.prems"
  show ?case
  proof (cases "isword c")
    case False
    then have nm: "\<not> word_match pat prev (c # cs)" using wp by (simp add: word_match_nonword)
    show ?thesis using False nm "2.IH"(2) [OF nm wp] by simp
  next
    case True
    show ?thesis
    proof (cases prev)
      case True
      have nm: "\<not> word_match pat prev (c # cs)"
        using \<open>isword c\<close> True by (simp add: word_match_inside)
      show ?thesis using \<open>isword c\<close> True nm "2.IH"(2) [OF nm wp] by simp
    next
      case False
      show ?thesis
      proof (cases "word_match pat prev (c # cs)")
        case m: True
        then have eq: "map py_lower (c # takeWhile isword cs) = map py_lower pat"
          using word_match_at_start [OF wp \<open>isword c\<close>] False by simp
        have rest: "drop (length pat - 1) cs = dropWhile isword cs"
          using eq by (rule drop_word_rest)
        have lastw: "isword (last (c # take (length pat - 1) cs))"
        proof -
          have "take (length pat - 1) cs = takeWhile isword cs"
            using eq by (metis (no_types, lifting) One_nat_def diff_Suc_1 length_Cons length_map
                takeWhile_eq_take)
          then have "last (c # take (length pat - 1) cs) \<in> set (c # takeWhile isword cs)"
            by (metis last_in_set list.distinct(1))
          then show ?thesis using \<open>isword c\<close> by (auto dest: set_takeWhileD)
        qed
        have "re_sub_from pat repl prev (c # cs)
                = repl @ re_sub_from pat repl True (dropWhile isword cs)"
          using m lastw rest by simp
        also have "re_sub_from pat repl True (dropWhile isword cs)
                = map_words (subst_word pat repl) (dropWhile isword cs)"
          using "2.IH"(1) [OF m wp] lastw rest by simp
        finally show ?thesis
          using False \<open>isword c\<close> eq by (simp add: subst_word_def str_lower_def)
      next
        case nm: False
        then have neq: "map py_lower (c # takeWhile isword cs) \<noteq> map py_lower pat"
          using word_match_at_start [OF wp \<open>isword c\<close>] False by simp
        show ?thesis
          using False \<open>isword c\<close> nm neq "2.IH"(2) [OF nm wp]
          by (simp add: subst_word_def str_lower_def)
      qed
    qed
  qed
qed

lemma re_sub_words:
  "word_pattern p \<Longrightarrow> re_sub p r s = map_words (subst_word p r) s"
  by (simp add: re_sub_def re_sub_from_words)




lemma word_run: "isword c \<Longrightarrow> word_pattern (c # takeWhile isword cs)"
  by (auto simp: word_pattern_def dest: set_takeWhileD)


lemma map_words_append_word:
  assumes "word_pattern v" "t = [] \<or> \<not> isword (hd t)"
  shows "map_words f (v @ t) = f v @ map_words f t"
proof -
  from assms(1) obtain c v' where v: "v = c # v'" and c: "isword c" and v': "\<forall>x \<in> set v'. isword x"
    by (cases v) (auto simp: word_pattern_def)
  have "takeWhile isword (v' @ t) = v'" "dropWhile isword (v' @ t) = t"
    using v' assms(2) by (cases t; simp)+
  then show ?thesis using c by (simp add: v)
qed

lemma dropWhile_stop: "dropWhile isword cs = [] \<or> \<not> isword (hd (dropWhile isword cs))"
  using hd_dropWhile [of isword cs] by blast

lemma map_words_stop:
  "t = [] \<or> \<not> isword (hd t) \<Longrightarrow> map_words f t = [] \<or> \<not> isword (hd (map_words f t))"
  by (cases t) auto


lemma map_words_comp:
  "(\<forall>w. word_pattern w \<longrightarrow> word_pattern (g w)) \<Longrightarrow>
   map_words f (map_words g s) = map_words (\<lambda>w. f (g w)) s"
proof (induction g s rule: map_words.induct)
  case (1 g)
  then show ?case by simp
next
  case (2 g c cs)
  show ?case
  proof (cases "isword c")
    case True
    have gw: "word_pattern (g (c # takeWhile isword cs))"
      using "2.prems" word_run [OF True] by blast
    have "map_words f (g (c # takeWhile isword cs) @ map_words g (dropWhile isword cs))
            = f (g (c # takeWhile isword cs)) @ map_words f (map_words g (dropWhile isword cs))"
      by (intro map_words_append_word gw map_words_stop dropWhile_stop)
    then show ?thesis using True "2.IH"(1) [OF True "2.prems"] by simp
  next
    case False
    then show ?thesis using "2.IH"(2) [OF False "2.prems"] by simp
  qed
qed

lemma map_words_cong:
  "(\<forall>w. word_pattern w \<longrightarrow> f w = g w) \<Longrightarrow> map_words f s = map_words g s"
proof (induction f s rule: map_words.induct)
  case (1 f)
  then show ?case by simp
next
  case (2 f c cs)
  show ?case
  proof (cases "isword c")
    case True
    have "f (c # takeWhile isword cs) = g (c # takeWhile isword cs)"
      using "2.prems" word_run [OF True] by blast
    then show ?thesis
      using True "2.IH"(1) [OF True "2.prems"] by simp
  next
    case False
    then show ?thesis using "2.IH"(2) [OF False "2.prems"] by simp
  qed
qed

lemma map_words_id: "map_words (\<lambda>w. w) s = s"
  by (induction "\<lambda>w::ustr. w" s rule: map_words.induct) simp_all


lemma word_match_contains:
  assumes "word_match p prev s"
  shows "contains (str_lower p) (str_lower s)"
proof -
  from assms have "map py_lower (take (length p) s) = map py_lower p"
    by (simp add: word_match_def ci_prefix_def)
  then have pre: "prefix (str_lower p) (str_lower s)"
    by (metis str_lower_def take_is_prefix take_map)
  show ?thesis
  proof (cases "str_lower s")
    case Nil
    with pre show ?thesis by simp
  next
    case (Cons x xs)
    with pre show ?thesis by simp
  qed
qed

lemma re_sub_from_no_occurrence:
  "\<not> contains (str_lower p) (str_lower s) \<Longrightarrow> re_sub_from p r prev s = s"
proof (induction p r prev s rule: re_sub_from.induct)
  case (1 pat repl prev)
  then show ?case by simp
next
  case (2 pat repl prev c cs)
  have nm: "\<not> word_match pat prev (c # cs)"
    using "2.prems" word_match_contains by blast
  have "\<not> contains (str_lower pat) (str_lower cs)"
    using "2.prems" by (simp add: str_lower_def)
  then show ?case using nm "2.IH"(2) [OF nm] by simp
qed

lemma forbidden_step_words:
  assumes "word_pattern word" "str_lower word = word"
  shows "(if contains word (str_lower t) then re_sub word colleague t else t)
           = map_words (subst_word word colleague) t"
proof (cases "contains word (str_lower t)")
  case True
  then show ?thesis using assms(1) by (simp add: re_sub_words)
next
  case False
  then have "re_sub word colleague t = t"
    using assms(2) by (simp add: re_sub_def re_sub_from_no_occurrence)
  then show ?thesis using False assms(1) by (simp add: re_sub_words)
qed

lemma colleague_word: "word_pattern colleague"
  by (simp add: word_pattern_def colleague_def isword_def)

lemma subst_word_pattern:
  "word_pattern r \<Longrightarrow> word_pattern w \<Longrightarrow> word_pattern (subst_word p r w)"
  by (simp add: subst_word_def)

lemma replace_forbidden_words:
  assumes "\<forall>word \<in> set ws. word_pattern word \<and> str_lower word = word"
  shows "replace_forbidden ws t
           = map_words (\<lambda>w. if str_lower w \<in> set ws then colleague else w) t"
  using assms
proof (induction ws arbitrary: t)
  case Nil
  then show ?case by (simp add: map_words_id)
next
  case (Cons word ws)
  then have wd: "word_pattern word" "str_lower word = word"
    and rest: "\<forall>word \<in> set ws. word_pattern word \<and> str_lower word = word"
    by simp_all
  have keep: "\<forall>w. word_pattern w \<longrightarrow> word_pattern (subst_word word colleague w)"
    by (simp add: subst_word_pattern colleague_word)
  have "replace_forbidden (word # ws) t
          = replace_forbidden ws (map_words (subst_word word colleague) t)"
    by (simp add: forbidden_step_words [OF wd])
  also have "\<dots> = map_words (\<lambda>w. if str_lower w \<in> set ws then colleague else w)
                      (map_words (subst_word word colleague) t)"
    by (rule Cons.IH [OF rest])
  also have "\<dots> = map_words (\<lambda>w. if str_lower (subst_word word colleague w) \<in> set ws
                                    then colleague else subst_word word colleague w) t"
    by (rule map_words_comp [OF keep])
  also have "\<dots> = map_words (\<lambda>w. if str_lower w \<in> set (word # ws) then colleague else w) t"
    by (rule map_words_cong) (simp add: subst_word_def wd)
  finally show ?case .
qed

lemma forbidden_words_patterns:
  "\<forall>word \<in> set FORBIDDEN_WORDS. word_pattern word \<and> str_lower word = word"
  by (simp add: FORBIDDEN_WORDS_def word_pattern_def str_lower_def isword_def py_lower_def)

lemma replace_forbidden_censor:
  "replace_forbidden FORBIDDEN_WORDS t = map_words censor_word t"
  using replace_forbidden_words [OF forbidden_words_patterns, of t]
  by (simp add: censor_word_def [abs_def])







section \<open>Length cap\<close>











lemma strip_solid:
  "s \<noteq> [] \<Longrightarrow> \<not> isspace (hd s) \<Longrightarrow> \<not> isspace (last s) \<Longrightarrow> strip s = s"
proof -
  assume a: "s \<noteq> []" "\<not> isspace (hd s)" "\<not> isspace (last s)"
  then have "dropWhile isspace s = s" by (cases s) auto
  moreover have "dropWhile isspace (rev s) = rev s"
    using a by (cases "rev s") (auto simp: last_rev [symmetric] hd_rev)
  ultimately show ?thesis by (simp add: strip_def)
qed




lemma map_words_nonword_run: "\<not> isword c \<Longrightarrow> map_words f (replicate k c) = replicate k c"
  by (induction k) simp_all

text \<open>
  The cut to 1000 characters comes before the substitutions, which can lengthen the text
  again: "brat" (in Cyrillic) followed by 997 full stops comes back with 1003 characters.
\<close>

lemma long_reply_can_grow:
  "validate_and_fix_reply ([1073, 1088, 1072, 1090] @ replicate 997 46) ''agent_1''
     = colleague @ replicate 996 46
   \<and> length (validate_and_fix_reply ([1073, 1088, 1072, 1090] @ replicate 997 46) ''agent_1'')
       = 1003"
proof -
  let ?text = "[1073, 1088, 1072, 1090] @ replicate 997 (46::nat)"
  have "strip ?text = ?text"
    by (rule strip_solid) (simp_all add: isspace_def)
  then have long: "5 \<le> length (strip ?text)" by simp
  have three: "[46, 46, 46] = replicate 3 (46::nat)" by (simp add: numeral_3_eq_3)
  have cut: "take 997 ?text @ ellipsis = [1073, 1088, 1072, 1090] @ replicate 996 46"
    by (simp add: ellipsis_def three replicate_add [symmetric])
  have brat: "word_pattern [1073, 1088, 1072, 1090]"
    by (simp add: word_pattern_def isword_def)
  have nonfiller: "\<not> (?text = [] \<or> length (strip ?text) < 5)"
    using long by simp
  have "validate_and_fix_reply ?text ''agent_1''
          = replace_forbidden FORBIDDEN_WORDS (fix_gender ''agent_1'' (truncate_reply ?text))"
    unfolding validate_and_fix_reply_def using nonfiller by (simp only: if_False)
  also have "truncate_reply ?text = take 997 ?text @ ellipsis"
    by (simp add: truncate_reply_def)
  also have "fix_gender ''agent_1'' (take 997 ?text @ ellipsis) = take 997 ?text @ ellipsis"
    by (simp add: fix_gender_def)
  also have "replace_forbidden FORBIDDEN_WORDS (take 997 ?text @ ellipsis)
          = map_words censor_word ([1073, 1088, 1072, 1090] @ replicate 996 46)"
    by (simp only: replace_forbidden_censor cut)
  also have "\<dots> = censor_word [1073, 1088, 1072, 1090] @ map_words censor_word (replicate 996 46)"
    by (rule map_words_append_word [OF brat]) (simp add: isword_def)
  also have "\<dots> = colleague @ replicate 996 46"
    by (simp add: map_words_nonword_run isword_def censor_word_def FORBIDDEN_WORDS_def
          str_lower_def py_lower_def)
  finally have eq: "validate_and_fix_reply ?text ''agent_1'' = colleague @ replicate 996 46" .
  then show ?thesis by (simp add: colleague_def)
qed

section \<open>Gender correction\<close>






section \<open>Emotion tag extraction\<close>

lemma contains_Nil: "contains [] s"
  by (cases s) simp_all

lemma replace_scan_absent: "\<not> contains t s \<Longrightarrow> replace_scan t r s = s"
  by (induction s) auto

lemma py_replace_absent: "\<not> contains t s \<Longrightarrow> py_replace t r s = s"
  using contains_Nil [of s] by (auto simp: py_replace_def replace_scan_absent)

lemma replace_scan_first:
  assumes "t \<noteq> []" "\<not> contains t (pre @ butlast t)"
  shows "replace_scan t r (pre @ t @ post) = pre @ r @ replace_scan t r post"
  using assms(2)
proof (induction pre)
  case Nil
  from assms(1) obtain a t' where t: "t = a # t'" by (cases t) auto
  show ?case by (simp add: t)
next
  case (Cons c pre)
  have np: "\<not> prefix t (c # pre @ butlast t)" and nc: "\<not> contains t (pre @ butlast t)"
    using Cons.prems by simp_all
  have "\<not> prefix t (c # pre @ t @ post)"
  proof
    assume p: "prefix t (c # pre @ t @ post)"
    have whole: "c # pre @ t @ post = (c # pre @ butlast t) @ last t # post"
      using assms(1) by simp
    have "prefix (c # pre @ butlast t) (c # pre @ t @ post)"
      unfolding whole by (rule prefixI) simp
    moreover have "length t \<le> length (c # pre @ butlast t)"
      using assms(1) by simp
    ultimately have "prefix t (c # pre @ butlast t)"
      using p prefix_length_prefix by blast
    with np show False by simp
  qed
  then show ?case using Cons.IH [OF nc] by simp
qed

lemma py_replace_first:
  assumes "t \<noteq> []" "\<not> contains t (pre @ butlast t)"
  shows "py_replace t r (pre @ t @ post) = pre @ r @ py_replace t r post"
  using assms by (simp add: py_replace_def replace_scan_first)

lemma extract_emotion_none:
  "\<forall>t \<in> set tags. \<not> contains t text \<Longrightarrow> extract_emotion text tags = (default_emotion, strip text)"
  by (induction tags) simp_all

lemma extract_emotion_first:
  "\<forall>u \<in> set ts1. \<not> contains u text \<Longrightarrow> contains t text \<Longrightarrow>
   extract_emotion text (ts1 @ t # ts2) = (t, strip (py_replace t [] text))"
  by (induction ts1) simp_all

text \<open>
  C4, as the code has it. \<open>_extract_emotion\<close> returns the first tag of the participant's
  list, in the order of the list, that occurs in the text, together with the trimmed
  text from which \<open>replace\<close> has removed every occurrence of that tag: the leftmost
  occurrence is deleted and the removal goes on in what follows it, and a text without
  the tag is left as it is, so that other tags and other bracketed substrings stay.
  When no tag of the list occurs, the default neutral tag and the trimmed text are
  returned.
\<close>

theorem extract_emotion_removes_listed_tag:
  "((\<forall>t \<in> set tags. \<not> contains t text)
      \<longrightarrow> extract_emotion text tags = (default_emotion, strip text))
   \<and> ((\<forall>u \<in> set ts1. \<not> contains u text) \<and> contains t text
      \<longrightarrow> extract_emotion text (ts1 @ t # ts2) = (t, strip (py_replace t [] text)))
   \<and> (t \<noteq> [] \<and> \<not> contains t (pre @ butlast t)
      \<longrightarrow> py_replace t [] (pre @ t @ post) = pre @ py_replace t [] post)
   \<and> (\<not> contains t s \<longrightarrow> py_replace t [] s = s)"
  using extract_emotion_none [of tags "text"] extract_emotion_first [of ts1 "text" t ts2]
    py_replace_first [of t pre "[]" post] py_replace_absent [of t s "[]"]
  by simp

text \<open>
  "[JOY] Hello" and "Hello" with the list ["[JOY]"]; "[JOY] Hi [SAD] [X]" with the list
  ["[JOY]", "[SAD]"], where the second known tag and the unknown one stay.
\<close>

theorem extract_emotion_removes_listed_tag_witness:
  "extract_emotion [91, 74, 79, 89, 93, 32, 72, 101, 108, 108, 111] [[91, 74, 79, 89, 93]]
     = ([91, 74, 79, 89, 93], [72, 101, 108, 108, 111])
   \<and> extract_emotion [72, 101, 108, 108, 111] [[91, 74, 79, 89, 93]]
     = (default_emotion, [72, 101, 108, 108, 111])
   \<and> extract_emotion
       [91, 74, 79, 89, 93, 32, 72, 105, 32, 91, 83, 65, 68, 93, 32, 91, 88, 93]
       [[91, 74, 79, 89, 93], [91, 83, 65, 68, 93]]
     = ([91, 74, 79, 89, 93], [72, 105, 32, 91, 83, 65, 68, 93, 32, 91, 88, 93])"
proof -
  let ?joy = "[91, 74, 79, 89, 93] :: ustr"
  let ?hello = "[72, 101, 108, 108, 111] :: ustr"
  let ?rest = "[32, 72, 105, 32, 91, 83, 65, 68, 93, 32, 91, 88, 93] :: ustr"
  have s1: "strip (32 # ?hello) = ?hello" "strip ?hello = ?hello"
    "strip ?rest = [72, 105, 32, 91, 83, 65, 68, 93, 32, 91, 88, 93]"
    by (simp_all add: strip_def isspace_def)
  have a: "extract_emotion (?joy @ 32 # ?hello) ([] @ ?joy # []) = (?joy, ?hello)"
    using extract_emotion_removes_listed_tag [of "[]" "?joy @ 32 # ?hello" "[]" ?joy "[]" "[]" "32 # ?hello" "32 # ?hello"]
    by (simp add: s1)
  have b: "extract_emotion ?hello [?joy] = (default_emotion, ?hello)"
    using extract_emotion_removes_listed_tag [of "[?joy]" ?hello]
    by (simp add: s1)
  have c: "extract_emotion (?joy @ ?rest) ([] @ ?joy # [[91, 83, 65, 68, 93]])
             = (?joy, [72, 105, 32, 91, 83, 65, 68, 93, 32, 91, 88, 93])"
    using extract_emotion_removes_listed_tag [of "[]" "?joy @ ?rest" "[]" ?joy "[[91, 83, 65, 68, 93]]" "[]" ?rest ?rest]
    by (simp add: s1)
  from a b c show ?thesis by simp
qed

text \<open>
  C4 as stated fails when the tag occurs twice: in "[JOY] Hi [JOY]" both occurrences
  are removed, the second one is not left in the returned text.
\<close>

theorem extract_emotion_second_occurrence_counterexample:
  "extract_emotion [91, 74, 79, 89, 93, 32, 72, 105, 32, 91, 74, 79, 89, 93]
     [[91, 74, 79, 89, 93]] = ([91, 74, 79, 89, 93], [72, 105])
   \<and> \<not> contains [91, 74, 79, 89, 93]
         (snd (extract_emotion [91, 74, 79, 89, 93, 32, 72, 105, 32, 91, 74, 79, 89, 93]
                 [[91, 74, 79, 89, 93]]))"
  by (simp add: py_replace_def strip_def isspace_def)

section \<open>Statistics\<close>

text \<open>
  C9. \<open>get_statistics\<close> never raises ZeroDivisionError. In a session whose turn order is
  not empty it returns the statistics, with an average of \<open>total_tokens / reply_count\<close>
  when \<open>reply_count > 0\<close> and of 0 when \<open>reply_count = 0\<close>; on a fresh session the
  average is 0.
\<close>

theorem get_statistics_average:
  "get_statistics dm elapsed \<noteq> Inl ZeroDivisionError
   \<and> (agent_queue dm \<noteq> [] \<longrightarrow>
        (\<exists>st. get_statistics dm elapsed = Inr st
           \<and> (reply_count dm > 0 \<longrightarrow>
                 st_average_tokens_per_reply st
                   = of_int (total_tokens dm) / of_int (reply_count dm))
           \<and> (reply_count dm = 0 \<longrightarrow> st_average_tokens_per_reply st = 0)))
   \<and> (order \<noteq> [] \<longrightarrow>
        (\<exists>st. get_statistics (init_dialog order maxh t0) elapsed = Inr st
           \<and> st_average_tokens_per_reply st = 0))"
proof -
  have a: "get_statistics dm elapsed \<noteq> Inl ZeroDivisionError"
    by (cases "agent_queue dm")
       (simp_all add: get_statistics_def py_truediv_def current_turn_def)
  have b: "\<exists>st. get_statistics dm elapsed = Inr st
           \<and> (reply_count dm > 0 \<longrightarrow>
                 st_average_tokens_per_reply st
                   = of_int (total_tokens dm) / of_int (reply_count dm))
           \<and> (reply_count dm = 0 \<longrightarrow> st_average_tokens_per_reply st = 0)"
    if "agent_queue dm \<noteq> []" for dm
    using that
    by (cases "agent_queue dm")
       (simp_all add: get_statistics_def py_truediv_def current_turn_def)
  have c: "\<exists>st. get_statistics (init_dialog order maxh t0) elapsed = Inr st
           \<and> st_average_tokens_per_reply st = 0"
    if "order \<noteq> []"
    using b [of "init_dialog order maxh t0"] that by (auto simp: init_dialog_def)
  from a b c show ?thesis by blast
qed

theorem get_statistics_average_witness:
  "[''agent_1'', ''agent_2''] \<noteq> []
   \<and> map_sum id st_average_tokens_per_reply
       (get_statistics (init_dialog [''agent_1'', ''agent_2''] 10 []) 0) = Inr 0
   \<and> map_sum id st_average_tokens_per_reply
       (get_statistics
          ((init_dialog [''agent_1'', ''agent_2''] 10 [])\<lparr>total_tokens := 250, reply_count := 5\<rparr>) 0)
       = Inr 50"
proof -
  let ?dm = "init_dialog [''agent_1'', ''agent_2''] 10 []"
  let ?dm5 = "?dm\<lparr>total_tokens := 250, reply_count := 5\<rparr>"
  have q: "agent_queue ?dm5 \<noteq> []" "reply_count ?dm5 > 0"
    "of_int (total_tokens ?dm5) / of_int (reply_count ?dm5) = (50::rat)"
    by (simp_all add: init_dialog_def)
  from get_statistics_average [of ?dm5 0 "[''agent_1'', ''agent_2'']" 10 "[]"] q
  obtain st st0 where "get_statistics ?dm5 0 = Inr st" "st_average_tokens_per_reply st = 50"
    "get_statistics ?dm 0 = Inr st0" "st_average_tokens_per_reply st0 = 0"
    by auto
  then show ?thesis by simp
qed

section \<open>Turns with a failing backend\<close>

lemma fallback_agent_1_stays:
  "validate_and_fix_reply fallback_agent_1 ''agent_1'' = fallback_agent_1"
  by (simp add: validate_and_fix_reply_def fallback_agent_1_def strip_def isspace_def
        truncate_reply_def fix_gender_def FORBIDDEN_WORDS_def str_lower_def py_lower_def)

lemma fallback_other_gender:
  "apply_replacements replacements fallback_other = fallback_other"
  by (simp add: fallback_other_def replacements_def re_sub_def word_match_def boundary_def
        ci_prefix_def isword_def py_lower_def)

lemma fallback_other_forbidden:
  "replace_forbidden FORBIDDEN_WORDS fallback_other = fallback_other"
  by (simp add: fallback_other_def FORBIDDEN_WORDS_def str_lower_def py_lower_def)

lemma fallback_other_long: "\<not> (fallback_other = [] \<or> length (strip fallback_other) < 5)"
  by (simp add: fallback_other_def strip_def isspace_def)

lemma fallback_other_stays:
  "validate_and_fix_reply fallback_other agent_id = fallback_other"
proof -
  have "truncate_reply fallback_other = fallback_other"
    by (simp add: truncate_reply_def fallback_other_def)
  moreover have "fix_gender agent_id fallback_other = fallback_other"
    by (simp add: fix_gender_def fallback_other_gender)
  ultimately show ?thesis
    using fallback_other_long
    by (simp only: validate_and_fix_reply_def if_False fallback_other_forbidden)
qed

lemma sentinel_gender:
  "apply_replacements replacements sentinel = sentinel"
  by (simp add: sentinel_def replacements_def re_sub_def word_match_def boundary_def
        ci_prefix_def isword_def py_lower_def)

lemma sentinel_forbidden:
  "replace_forbidden FORBIDDEN_WORDS sentinel = sentinel"
  by (simp add: sentinel_def FORBIDDEN_WORDS_def str_lower_def py_lower_def)

lemma sentinel_long: "\<not> (sentinel = [] \<or> length (strip sentinel) < 5)"
  by (simp add: sentinel_def strip_def isspace_def)

lemma sentinel_stays:
  "validate_and_fix_reply sentinel agent_id = sentinel"
proof -
  have "truncate_reply sentinel = sentinel"
    by (simp add: truncate_reply_def sentinel_def)
  moreover have "fix_gender agent_id sentinel = sentinel"
    by (simp add: fix_gender_def sentinel_gender)
  ultimately show ?thesis
    using sentinel_long
    by (simp only: validate_and_fix_reply_def if_False sentinel_forbidden)
qed

lemma retry_loop_fails:
  "list_all (\<lambda>i. attempt_fails (results i)) [0..<n] \<Longrightarrow> k \<le> n \<Longrightarrow>
   retry_loop results n k = Raised \<or> retry_loop results n k = Returned sentinel 0"
proof (induction k)
  case 0
  then show ?case by simp
next
  case (Suc k)
  have "n - Suc k \<in> set [0..<n]" using Suc.prems(2) by simp
  then have f: "attempt_fails (results (n - Suc k))"
    using Suc.prems(1) by (simp add: list_all_iff)
  have ih: "retry_loop results n k = Raised \<or> retry_loop results n k = Returned sentinel 0"
    using Suc by simp
  show ?case
  proof (cases "results (n - Suc k)")
    case (HttpError unauthorized refreshed)
    then show ?thesis using ih by auto
  next
    case (HttpOk answer tokens)
    then have "answer = [] \<or> length (strip answer) < 10"
      using f by (simp add: attempt_fails_def)
    then show ?thesis using HttpOk ih by auto
  qed
qed

lemma request_reply_fails:
  "backend_fails b \<Longrightarrow> request_reply b = Raised \<or> request_reply b = Returned sentinel 0"
  using retry_loop_fails [of "post_result b" 3 3]
  by (auto simp: backend_fails_def request_reply_def generate_response_def)

lemma get_next_reply_step:
  assumes q: "agent_queue dm = a # rest" and c: "map_of cfg a = Some ac"
  shows "\<exists>r dm'. get_next_reply cfg dm b now = Inr (r, dm')
           \<and> reply_agent r = a
           \<and> reply_text r
               = validate_and_fix_reply (fst (reply_or_fallback a (request_reply b))) a
           \<and> reply_tokens r = snd (reply_or_fallback a (request_reply b))
           \<and> agent_queue dm' = rest @ [a]
           \<and> reply_count dm' = reply_count dm + 1
           \<and> total_tokens dm' = total_tokens dm + reply_tokens r
           \<and> max_history dm' = max_history dm
           \<and> turn_order dm' = turn_order dm
           \<and> start_time dm' = start_time dm
           \<and> (\<exists>e. history dm' = bound_history (max_history dm) (history dm @ [e])
                  \<and> map_of e ''content'' = Some (PStr (reply_text r)))"
  apply (simp add: get_next_reply_def q c get_next_agent_def get_agent_config_def Let_def
        add_to_history_def reply_agent_def reply_text_def reply_tokens_def make_entry_def
        dict_update_def split: prod.splits)
  apply (intro allI impI)
  apply (rule exI, rule conjI, rule refl)
  apply simp
  done

lemma bound_history_length:
  "0 < m \<Longrightarrow> length (bound_history m (h @ [e])) = min (Suc (length h)) (nat m)"
  by (simp add: bound_history_pos)

lemma nth_rotate1_mod:
  assumes "q \<noteq> []"
  shows "rotate1 q ! (i mod length q) = q ! (Suc i mod length q)"
proof -
  have "i mod length q < length q" using assms by simp
  then have "rotate1 q ! (i mod length q) = q ! (Suc (i mod length q) mod length q)"
    by (rule nth_rotate1)
  then show ?thesis by (simp add: mod_Suc_eq)
qed

lemma run_turns_result:
  assumes "agent_queue dm \<noteq> []" "\<forall>a \<in> set (agent_queue dm). map_of cfg a \<noteq> None"
  shows "\<exists>replies dm'. run_turns cfg dm turns = Inr (replies, dm')
           \<and> length replies = length turns
           \<and> reply_count dm' = reply_count dm + int (length turns)
           \<and> total_tokens dm' = total_tokens dm + sum_list (map reply_tokens replies)
           \<and> max_history dm' = max_history dm
           \<and> turn_order dm' = turn_order dm
           \<and> start_time dm' = start_time dm
           \<and> (0 < max_history dm \<and> turns \<noteq> [] \<longrightarrow>
                length (history dm')
                  = min (length (history dm) + length turns) (nat (max_history dm)))
           \<and> (\<forall>i < length turns.
                reply_agent (replies ! i) = agent_queue dm ! (i mod length (agent_queue dm))
                \<and> reply_text (replies ! i)
                    = validate_and_fix_reply
                        (fst (reply_or_fallback (reply_agent (replies ! i))
                                (request_reply (fst (turns ! i)))))
                        (reply_agent (replies ! i))
                \<and> reply_tokens (replies ! i)
                    = snd (reply_or_fallback (reply_agent (replies ! i))
                             (request_reply (fst (turns ! i)))))"
  using assms
proof (induction turns arbitrary: dm)
  case Nil
  then show ?case by simp
next
  case (Cons turn turns)
  obtain b now where turn: "turn = (b, now)" by (cases turn)
  from Cons.prems(1) obtain a rest where q: "agent_queue dm = a # rest"
    by (cases "agent_queue dm") auto
  from Cons.prems(2) q obtain ac where c: "map_of cfg a = Some ac" by auto
  from get_next_reply_step [OF q c, of b now]
  obtain r dm1 e where step: "get_next_reply cfg dm b now = Inr (r, dm1)"
    and ra: "reply_agent r = a"
    and rt: "reply_text r
               = validate_and_fix_reply (fst (reply_or_fallback a (request_reply b))) a"
    and rk: "reply_tokens r = snd (reply_or_fallback a (request_reply b))"
    and q1: "agent_queue dm1 = rest @ [a]"
    and n1: "reply_count dm1 = reply_count dm + 1"
    and t1: "total_tokens dm1 = total_tokens dm + reply_tokens r"
    and m1: "max_history dm1 = max_history dm"
    and o1: "turn_order dm1 = turn_order dm"
    and s1: "start_time dm1 = start_time dm"
    and h1: "history dm1 = bound_history (max_history dm) (history dm @ [e])"
    by blast
  have rot: "agent_queue dm1 = rotate1 (agent_queue dm)" by (simp add: q q1)
  have q1ne: "agent_queue dm1 \<noteq> []" by (simp add: q1)
  have cfg1: "\<forall>a \<in> set (agent_queue dm1). map_of cfg a \<noteq> None"
    using Cons.prems(2) by (simp add: rot)
  from Cons.IH [OF q1ne cfg1]
  obtain rs dm2 where run: "run_turns cfg dm1 turns = Inr (rs, dm2)"
    and len: "length rs = length turns"
    and n2: "reply_count dm2 = reply_count dm1 + int (length turns)"
    and t2: "total_tokens dm2 = total_tokens dm1 + sum_list (map reply_tokens rs)"
    and m2: "max_history dm2 = max_history dm1"
    and o2: "turn_order dm2 = turn_order dm1"
    and s2: "start_time dm2 = start_time dm1"
    and h2: "0 < max_history dm1 \<and> turns \<noteq> [] \<longrightarrow>
               length (history dm2)
                 = min (length (history dm1) + length turns) (nat (max_history dm1))"
    and each: "\<forall>i < length turns.
                 reply_agent (rs ! i) = agent_queue dm1 ! (i mod length (agent_queue dm1))
                 \<and> reply_text (rs ! i)
                     = validate_and_fix_reply
                         (fst (reply_or_fallback (reply_agent (rs ! i))
                                 (request_reply (fst (turns ! i)))))
                         (reply_agent (rs ! i))
                 \<and> reply_tokens (rs ! i)
                     = snd (reply_or_fallback (reply_agent (rs ! i))
                              (request_reply (fst (turns ! i))))"
    by blast
  have res: "run_turns cfg dm (turn # turns) = Inr (r # rs, dm2)"
    by (simp add: turn step run)
  have hist: "0 < max_history dm \<and> turn # turns \<noteq> [] \<longrightarrow>
                length (history dm2)
                  = min (length (history dm) + length (turn # turns)) (nat (max_history dm))"
  proof
    assume "0 < max_history dm \<and> turn # turns \<noteq> []"
    then have pos: "0 < max_history dm" by simp
    have l1: "length (history dm1) = min (Suc (length (history dm))) (nat (max_history dm))"
      unfolding h1 using pos by (rule bound_history_length)
    show "length (history dm2)
            = min (length (history dm) + length (turn # turns)) (nat (max_history dm))"
    proof (cases turns)
      case Nil
      then have "dm2 = dm1" using run by simp
      then show ?thesis using l1 Nil by simp
    next
      case (Cons t ts)
      then have "length (history dm2)
                   = min (length (history dm1) + length turns) (nat (max_history dm))"
        using h2 pos m1 by simp
      then show ?thesis unfolding l1 by (simp add: min_def)
    qed
  qed
  have nth: "reply_agent ((r # rs) ! i)
               = agent_queue dm ! (i mod length (agent_queue dm))
             \<and> reply_text ((r # rs) ! i)
                 = validate_and_fix_reply
                     (fst (reply_or_fallback (reply_agent ((r # rs) ! i))
                             (request_reply (fst ((turn # turns) ! i)))))
                     (reply_agent ((r # rs) ! i))
             \<and> reply_tokens ((r # rs) ! i)
                 = snd (reply_or_fallback (reply_agent ((r # rs) ! i))
                          (request_reply (fst ((turn # turns) ! i))))"
    if "i < length (turn # turns)" for i
  proof (cases i)
    case 0
    then show ?thesis using ra rt rk by (simp add: q turn)
  next
    case (Suc j)
    then have j: "j < length turns" using that by simp
    have "agent_queue dm1 ! (j mod length (agent_queue dm1))
            = agent_queue dm ! (Suc j mod length (agent_queue dm))"
      unfolding rot using nth_rotate1_mod [OF Cons.prems(1), of j] by simp
    then show ?thesis using each j Suc by simp
  qed
  show ?case
    using res len n1 n2 t1 t2 m1 m2 o1 o2 s1 s2 hist nth
    by (intro exI [of _ "r # rs"] exI [of _ dm2]) (simp del: length_Cons nth_Cons_Suc)
qed

lemma fallback_nonempty: "fallback_agent_1 \<noteq> []" "fallback_other \<noteq> []" "sentinel \<noteq> []"
  by (simp_all add: fallback_agent_1_def fallback_other_def sentinel_def)

lemma failed_reply:
  assumes "backend_fails b"
  shows "validate_and_fix_reply (fst (reply_or_fallback a (request_reply b))) a \<noteq> []
       \<and> (if request_reply b = Raised
          then validate_and_fix_reply (fst (reply_or_fallback a (request_reply b))) a
                 = (if a = ''agent_1'' then fallback_agent_1 else fallback_other)
             \<and> snd (reply_or_fallback a (request_reply b)) = 10
          else request_reply b = Returned sentinel 0
             \<and> validate_and_fix_reply (fst (reply_or_fallback a (request_reply b))) a = sentinel
             \<and> snd (reply_or_fallback a (request_reply b)) = 0)"
proof (cases "request_reply b = Raised")
  case True
  then show ?thesis
    by (simp add: reply_or_fallback_def fallback_agent_1_stays fallback_other_stays
          fallback_nonempty)
next
  case False
  then have "request_reply b = Returned sentinel 0"
    using request_reply_fails [OF assms] by simp
  then show ?thesis
    by (simp add: reply_or_fallback_def sentinel_stays fallback_nonempty)
qed

text \<open>
  C1, as the code has it. In a session whose turn order is not empty and whose
  participants are all configured, \<open>N\<close> calls of \<open>get_next_reply\<close> with a failing backend
  all return, and the turn count grows by \<open>N\<close>. The participants follow the rotation,
  and no returned text is empty. A call whose backend request raises returns the
  fallback utterance of its participant and counts 10 tokens; a call whose backend
  gives up after its retries returns the text of \<open>generate_response\<close> for that case,
  the same for every participant, and counts 0 tokens.
\<close>

theorem failing_backend_turns:
  assumes "agent_queue dm \<noteq> []"
    and "\<forall>a \<in> set (agent_queue dm). map_of cfg a \<noteq> None"
    and "\<forall>turn \<in> set turns. backend_fails (fst turn)"
  shows "\<exists>replies dm'. run_turns cfg dm turns = Inr (replies, dm')
           \<and> length replies = length turns
           \<and> reply_count dm' = reply_count dm + int (length turns)
           \<and> total_tokens dm' = total_tokens dm + sum_list (map reply_tokens replies)
           \<and> (\<forall>i < length turns.
                reply_agent (replies ! i) = agent_queue dm ! (i mod length (agent_queue dm))
                \<and> reply_text (replies ! i) \<noteq> []
                \<and> (if request_reply (fst (turns ! i)) = Raised
                   then reply_text (replies ! i)
                          = (if reply_agent (replies ! i) = ''agent_1'' then fallback_agent_1
                             else fallback_other)
                      \<and> reply_tokens (replies ! i) = 10
                   else request_reply (fst (turns ! i)) = Returned sentinel 0
                      \<and> reply_text (replies ! i) = sentinel
                      \<and> reply_tokens (replies ! i) = 0))"
proof -
  from run_turns_result [OF assms(1,2), of turns]
  obtain replies dm' where run: "run_turns cfg dm turns = Inr (replies, dm')"
    and len: "length replies = length turns"
    and cnt: "reply_count dm' = reply_count dm + int (length turns)"
    and tok: "total_tokens dm' = total_tokens dm + sum_list (map reply_tokens replies)"
    and each: "\<forall>i < length turns.
                 reply_agent (replies ! i) = agent_queue dm ! (i mod length (agent_queue dm))
                 \<and> reply_text (replies ! i)
                     = validate_and_fix_reply
                         (fst (reply_or_fallback (reply_agent (replies ! i))
                                 (request_reply (fst (turns ! i)))))
                         (reply_agent (replies ! i))
                 \<and> reply_tokens (replies ! i)
                     = snd (reply_or_fallback (reply_agent (replies ! i))
                              (request_reply (fst (turns ! i))))"
    by blast
  have "reply_agent (replies ! i) = agent_queue dm ! (i mod length (agent_queue dm))
        \<and> reply_text (replies ! i) \<noteq> []
        \<and> (if request_reply (fst (turns ! i)) = Raised
           then reply_text (replies ! i)
                  = (if reply_agent (replies ! i) = ''agent_1'' then fallback_agent_1
                     else fallback_other)
              \<and> reply_tokens (replies ! i) = 10
           else request_reply (fst (turns ! i)) = Returned sentinel 0
              \<and> reply_text (replies ! i) = sentinel
              \<and> reply_tokens (replies ! i) = 0)"
    if i: "i < length turns" for i
  proof -
    have bf: "backend_fails (fst (turns ! i))" using assms(3) i by simp
    from each i have a: "reply_agent (replies ! i)
                           = agent_queue dm ! (i mod length (agent_queue dm))"
      and t: "reply_text (replies ! i)
                = validate_and_fix_reply
                    (fst (reply_or_fallback (reply_agent (replies ! i))
                            (request_reply (fst (turns ! i)))))
                    (reply_agent (replies ! i))"
      and k: "reply_tokens (replies ! i)
                = snd (reply_or_fallback (reply_agent (replies ! i))
                         (request_reply (fst (turns ! i))))"
      by blast+
    show ?thesis
      unfolding t k
      by (rule conjI [OF a failed_reply [OF bf, of "reply_agent (replies ! i)"]])
  qed
  with run len cnt tok show ?thesis by blast
qed

lemma timeout_backend_gives_up:
  "backend_fails timeout_backend" "request_reply timeout_backend = Returned sentinel 0"
  by (simp_all add: backend_fails_def attempt_fails_def request_reply_def generate_response_def
        timeout_backend_def numeral_3_eq_3)

lemma broken_backend_raises:
  "backend_fails broken_backend" "request_reply broken_backend = Raised"
  by (simp_all add: backend_fails_def request_reply_def broken_backend_def)

lemma example_session_ready:
  "agent_queue example_session \<noteq> []"
  "\<forall>a \<in> set (agent_queue example_session). map_of example_config a \<noteq> None"
  by (simp_all add: example_session_def init_dialog_def example_config_def)

theorem failing_backend_turns_witness:
  "agent_queue example_session \<noteq> []
   \<and> backend_fails broken_backend \<and> backend_fails timeout_backend
   \<and> (\<exists>replies dm'.
        run_turns example_config example_session [(broken_backend, []), (timeout_backend, [])]
          = Inr (replies, dm')
        \<and> length replies = 2 \<and> reply_count dm' = 2 \<and> total_tokens dm' = 10
        \<and> reply_agent (replies ! 0) = ''agent_1''
        \<and> reply_text (replies ! 0) = fallback_agent_1 \<and> reply_tokens (replies ! 0) = 10
        \<and> reply_agent (replies ! 1) = ''agent_2''
        \<and> reply_text (replies ! 1) = sentinel \<and> reply_tokens (replies ! 1) = 0)"
proof -
  let ?turns = "[(broken_backend, []), (timeout_backend, [])] :: (backend \<times> ustr) list"
  have fails: "\<forall>turn \<in> set ?turns. backend_fails (fst turn)"
    by (simp add: timeout_backend_gives_up broken_backend_raises)
  let ?P = "\<lambda>replies dm'.
      run_turns example_config example_session ?turns = Inr (replies, dm')
      \<and> length replies = length ?turns
      \<and> reply_count dm' = reply_count example_session + int (length ?turns)
      \<and> total_tokens dm' = total_tokens example_session + sum_list (map reply_tokens replies)
      \<and> (\<forall>i < length ?turns.
            reply_agent (replies ! i)
              = agent_queue example_session ! (i mod length (agent_queue example_session))
            \<and> reply_text (replies ! i) \<noteq> []
            \<and> (if request_reply (fst (?turns ! i)) = Raised
               then reply_text (replies ! i)
                      = (if reply_agent (replies ! i) = ''agent_1'' then fallback_agent_1
                         else fallback_other)
                  \<and> reply_tokens (replies ! i) = 10
               else request_reply (fst (?turns ! i)) = Returned sentinel 0
                  \<and> reply_text (replies ! i) = sentinel
                  \<and> reply_tokens (replies ! i) = 0))"
  have "\<exists>replies dm'. ?P replies dm'"
    by (rule failing_backend_turns [OF example_session_ready fails])
  then obtain replies where "\<exists>dm'. ?P replies dm'" ..
  then obtain dm' where all: "?P replies dm'" ..
  from all have run: "run_turns example_config example_session ?turns = Inr (replies, dm')"
    by (rule conjunct1)
  from all have len: "length replies = length ?turns"
    by (rule conjunct2 [THEN conjunct1])
  from all have cnt: "reply_count dm' = reply_count example_session + int (length ?turns)"
    by (rule conjunct2 [THEN conjunct2, THEN conjunct1])
  from all have tok: "total_tokens dm'
                        = total_tokens example_session + sum_list (map reply_tokens replies)"
    by (rule conjunct2 [THEN conjunct2, THEN conjunct2, THEN conjunct1])
  from all have each: "\<forall>i < length ?turns.
            reply_agent (replies ! i)
              = agent_queue example_session ! (i mod length (agent_queue example_session))
            \<and> reply_text (replies ! i) \<noteq> []
            \<and> (if request_reply (fst (?turns ! i)) = Raised
               then reply_text (replies ! i)
                      = (if reply_agent (replies ! i) = ''agent_1'' then fallback_agent_1
                         else fallback_other)
                  \<and> reply_tokens (replies ! i) = 10
               else request_reply (fst (?turns ! i)) = Returned sentinel 0
                  \<and> reply_text (replies ! i) = sentinel
                  \<and> reply_tokens (replies ! i) = 0)"
    by (rule conjunct2 [THEN conjunct2, THEN conjunct2, THEN conjunct2])
  from each have r0: "reply_agent (replies ! 0) = ''agent_1''"
    "reply_text (replies ! 0) = fallback_agent_1" "reply_tokens (replies ! 0) = 10"
    by (simp_all add: broken_backend_raises example_session_def init_dialog_def)
  from each have "1 < length ?turns \<longrightarrow>
       reply_agent (replies ! 1)
         = agent_queue example_session ! (1 mod length (agent_queue example_session))
       \<and> (if request_reply (fst (?turns ! 1)) = Raised
          then reply_text (replies ! 1)
                 = (if reply_agent (replies ! 1) = ''agent_1'' then fallback_agent_1
                    else fallback_other)
             \<and> reply_tokens (replies ! 1) = 10
          else request_reply (fst (?turns ! 1)) = Returned sentinel 0
             \<and> reply_text (replies ! 1) = sentinel
             \<and> reply_tokens (replies ! 1) = 0)"
    by blast
  then have r1: "reply_agent (replies ! 1) = ''agent_2''"
    "reply_text (replies ! 1) = sentinel" "reply_tokens (replies ! 1) = 0"
    by (simp_all add: timeout_backend_gives_up example_session_def init_dialog_def)
  from len obtain x y where xy: "replies = [x, y]"
    by (cases replies; cases "tl replies"; simp)
  have total: "total_tokens dm' = 10"
    using tok r0 r1 by (simp add: xy example_session_def init_dialog_def)
  have count: "reply_count dm' = 2"
    using cnt by (simp add: example_session_def init_dialog_def)
  show ?thesis
    using example_session_ready(1) broken_backend_raises(1) timeout_backend_gives_up(1)
      run len r0 r1 total count
    by simp
qed

text \<open>
  C1 as stated fails when the backend gives up after its retries: for the first turn of
  the example session the returned text is the text of \<open>generate_response\<close>, not the
  fallback utterance of \<open>agent_1\<close>, and the turn counts 0 tokens, not 10.
\<close>

theorem exhausted_retries_counterexample:
  "backend_fails timeout_backend
   \<and> map_sum id (\<lambda>(r, dm'). (r, total_tokens dm'))
       (get_next_reply example_config example_session timeout_backend [])
       = Inr ((''agent_1'', sentinel, sentinel, 0), 0)
   \<and> sentinel \<noteq> fallback_agent_1"
proof -
  have e: "extract_emotion sentinel [[91, 1056, 1040, 1044, 1054, 1057, 1058, 1068, 93]]
             = (default_emotion, sentinel)"
    by (simp add: sentinel_def strip_def isspace_def)
  have "map_sum id (\<lambda>(r, dm'). (r, total_tokens dm'))
          (get_next_reply example_config example_session timeout_backend [])
          = Inr ((''agent_1'', sentinel, sentinel, 0), 0)"
    by (simp add: get_next_reply_def example_session_def init_dialog_def example_config_def
          get_next_agent_def get_agent_config_def timeout_backend_gives_up
          reply_or_fallback_def sentinel_stays e add_to_history_def
          del: extract_emotion.simps)
  moreover have "sentinel \<noteq> fallback_agent_1"
    by (simp add: sentinel_def fallback_agent_1_def)
  ultimately show ?thesis using timeout_backend_gives_up(1) by simp
qed

section \<open>Transcript export\<close>

text \<open>
  C5. In the example session (default turn order, \<open>max_history = 10\<close>), after 11 turns
  the dictionary that \<open>save_dialog_log\<close> writes reports 11 replies, but its history holds
  10 entries: the record of the first turn is not exported.
\<close>

theorem save_dialog_log_exports_bounded_history:
  "map_sum id
     (\<lambda>(replies, dm').
        map_option (\<lambda>d. (dd_total_replies d, length (dd_history d)))
          (save_dialog_log dm' [] True))
     (run_turns example_config example_session (replicate 11 (broken_backend, [])))
   = Inr (Some (11, 10))"
proof -
  from run_turns_result [OF example_session_ready, of "replicate 11 (broken_backend, [])"]
  obtain replies dm' where
    "run_turns example_config example_session (replicate 11 (broken_backend, []))
       = Inr (replies, dm')"
    "reply_count dm' = 11" "length (history dm') = 10"
    by (auto simp: example_session_def init_dialog_def)
  then show ?thesis by (simp add: save_dialog_log_def)
qed


end
